theory Spec2Isabelle
  imports Main "HOL-Library.Word"
begin

section \<open>The icon writer: \<^verbatim>\<open>create_ico_from_pngs.py\<close>\<close>

subsection \<open>\<^verbatim>\<open>struct.pack\<close> with a little-endian format string\<close>

text \<open>
  A byte of the output file is an 8-bit word. Python's integers are unbounded, so every
  value handed to \<^verbatim>\<open>struct.pack\<close> is an \<open>int\<close>; \<^verbatim>\<open>struct.pack\<close> raises
  \<^verbatim>\<open>struct.error\<close> when a value does not fit the unsigned field of its format character,
  and then produces no bytes at all.
\<close>

type_synonym byte = "8 word"

datatype py_error = StructError

text \<open>The format characters the script uses: \<^verbatim>\<open>B\<close> (1 byte), \<^verbatim>\<open>H\<close> (2 bytes), \<^verbatim>\<open>I\<close> (4 bytes).\<close>

datatype fmt = Fmt_B | Fmt_H | Fmt_I

fun fmt_size :: "fmt \<Rightarrow> nat" where
  "fmt_size Fmt_B = 1"
| "fmt_size Fmt_H = 2"
| "fmt_size Fmt_I = 4"

text \<open>The \<open>n\<close> low bytes of \<open>v\<close>, least significant first (the \<^verbatim>\<open><\<close> prefix).\<close>

fun le_bytes :: "nat \<Rightarrow> int \<Rightarrow> byte list" where
  "le_bytes 0 v = []"
| "le_bytes (Suc n) v = word_of_int v # le_bytes n (v div 256)"

definition pack_one :: "fmt \<Rightarrow> int \<Rightarrow> py_error + byte list" where
  "pack_one c v =
     (if 0 \<le> v \<and> v < 256 ^ fmt_size c then Inr (le_bytes (fmt_size c) v)
      else Inl StructError)"

text \<open>
  \<^verbatim>\<open>struct.pack('<' + fmt, *values)\<close>: the fields in order, with no padding; an
  out-of-range value, or a number of values other than the format asks for, raises.
\<close>

fun struct_pack :: "fmt list \<Rightarrow> int list \<Rightarrow> py_error + byte list" where
  "struct_pack [] [] = Inr []"
| "struct_pack (c # cs) (v # vs) =
     (case pack_one c v of
        Inl e \<Rightarrow> Inl e
      | Inr bs \<Rightarrow>
          (case struct_pack cs vs of
             Inl e \<Rightarrow> Inl e
           | Inr rest \<Rightarrow> Inr (bs @ rest)))"
| "struct_pack _ _ = Inl StructError"

subsection \<open>The images and the run\<close>

text \<open>
  One element of \<^verbatim>\<open>images_data\<close>: the dictionary \<^verbatim>\<open>{'size': size, 'data': png_data}\<close>.
  (\<open>size\<close> is a constant of HOL, hence the field name \<open>size_px\<close>.)
\<close>

record img_info =
  size_px :: int
  data :: "byte list"

text \<open>What the script prints, one constructor per \<^verbatim>\<open>print\<close> call.\<close>

datatype message =
    Loading_PNG_files
  | Loaded int nat
  | Error_No_PNG_files_found
  | Creating_ICO nat
  | Created
  | ICO_ready
  | PNGs_preserved

text \<open>
  The observable outcome of a call: what Python does on return (\<open>Inr ()\<close> is a normal
  return of \<^verbatim>\<open>None\<close>, \<open>Inl e\<close> an exception that leaves the function), the contents of the
  file at \<^verbatim>\<open>output_ico\<close> afterwards (\<open>None\<close> when there is no such file), and the lines
  printed.
\<close>

record run =
  result :: "py_error + unit"
  output_ico :: "byte list option"
  printed :: "message list"

subsection \<open>Loading (lines 15 to 47)\<close>

text \<open>\<^verbatim>\<open>sorted(png_files.keys(), reverse=True)\<close>.\<close>

definition png_sizes :: "int list" where
  "png_sizes = [256, 128, 64, 48, 36, 16]"

text \<open>
  The Pillow calls (open, convert to RGBA, save as PNG into a buffer) are outside the
  repository: \<open>png size\<close> is \<open>None\<close> when the file of that size does not exist, and
  otherwise the bytes that \<^verbatim>\<open>png_buffer.getvalue()\<close> returns for it.
\<close>

fun load_images :: "(int \<Rightarrow> byte list option) \<Rightarrow> int list \<Rightarrow> img_info list" where
  "load_images png [] = []"
| "load_images png (s # sizes) =
     (case png s of
        None \<Rightarrow> load_images png sizes
      | Some png_data \<Rightarrow> \<lparr>size_px = s, data = png_data\<rparr> # load_images png sizes)"

subsection \<open>Writing (lines 49 to 89)\<close>

text \<open>The \<^verbatim>\<open>struct.pack('<BBBBHHII', ...)\<close> of lines 65 to 79, for one image.\<close>

definition directory_entry :: "img_info \<Rightarrow> int \<Rightarrow> py_error + byte list" where
  "directory_entry img_info offset =
     (let size = size_px img_info;
          width = (if size < 256 then size else 0);
          height = (if size < 256 then size else 0);
          data_size = int (length (data img_info))
      in struct_pack [Fmt_B, Fmt_B, Fmt_B, Fmt_B, Fmt_H, Fmt_H, Fmt_I, Fmt_I]
           [width, height, 0, 0, 1, 32, data_size, offset])"

text \<open>
  The first loop (lines 64 to 81). \<open>f\<close> is what has been written to the file so far;
  a \<^verbatim>\<open>struct.error\<close> leaves the loop with the file as it is at that moment.
\<close>

fun write_directory ::
  "img_info list \<Rightarrow> int \<Rightarrow> byte list \<Rightarrow> (py_error + unit) \<times> byte list" where
  "write_directory [] offset f = (Inr (), f)"
| "write_directory (img_info # rest) offset f =
     (case directory_entry img_info offset of
        Inl e \<Rightarrow> (Inl e, f)
      | Inr entry \<Rightarrow>
          write_directory rest (offset + int (length (data img_info))) (f @ entry))"

text \<open>The second loop (lines 84 and 85).\<close>

fun write_image_data :: "img_info list \<Rightarrow> byte list \<Rightarrow> byte list" where
  "write_image_data [] f = f"
| "write_image_data (img_info # rest) f = write_image_data rest (f @ data img_info)"

text \<open>
  Lines 49 to 89 for a given \<^verbatim>\<open>images_data\<close>. \<open>old\<close> is the file at \<^verbatim>\<open>output_ico\<close>
  before the call. \<^verbatim>\<open>open(output_ico, 'wb')\<close> truncates it; the model covers the runs in
  which the operating system accepts the \<^verbatim>\<open>open\<close> and every \<^verbatim>\<open>write\<close>.
\<close>

definition write_ico :: "img_info list \<Rightarrow> byte list option \<Rightarrow> run" where
  "write_ico images_data old =
     (if images_data = [] then
        \<lparr>result = Inr (), output_ico = old, printed = [Error_No_PNG_files_found]\<rparr>
      else
        (case struct_pack [Fmt_H, Fmt_H, Fmt_H] [0, 1, int (length images_data)] of
           Inl e \<Rightarrow>
             \<lparr>result = Inl e, output_ico = Some [],
              printed = [Creating_ICO (length images_data)]\<rparr>
         | Inr header \<Rightarrow>
             (case write_directory images_data (6 + 16 * int (length images_data)) header of
                (Inl e, f) \<Rightarrow>
                  \<lparr>result = Inl e, output_ico = Some f,
                   printed = [Creating_ICO (length images_data)]\<rparr>
              | (Inr u, f) \<Rightarrow>
                  \<lparr>result = Inr (), output_ico = Some (write_image_data images_data f),
                   printed = [Creating_ICO (length images_data),
                              Created, ICO_ready, PNGs_preserved]\<rparr>)))"

text \<open>The whole function: loading, then writing.\<close>

definition create_ico_from_pngs ::
  "(int \<Rightarrow> byte list option) \<Rightarrow> byte list option \<Rightarrow> run" where
  "create_ico_from_pngs png old =
     (let images_data = load_images png png_sizes;
          r = write_ico images_data old
      in r\<lparr>printed :=
             Loading_PNG_files
             # map (\<lambda>i. Loaded (size_px i) (length (data i))) images_data
             @ printed r\<rparr>)"

subsection \<open>Reading a container\<close>

text \<open>
  The repository has no reader of the file it writes. The functions of this subsection read
  a byte sequence the way section 6 of the specification lays the container out: a 6-byte
  header, then 16-byte directory records, every field little-endian and unsigned. They
  serve to state what the writer's output contains.
\<close>

fun le_value :: "byte list \<Rightarrow> int" where
  "le_value [] = 0"
| "le_value (b # bs) = uint b + 256 * le_value bs"

text \<open>The field of \<open>n\<close> bytes at position \<open>pos\<close>.\<close>

definition field :: "byte list \<Rightarrow> nat \<Rightarrow> nat \<Rightarrow> int" where
  "field bs pos n = le_value (take n (drop pos bs))"

text \<open>The bytes of the \<open>i\<close>-th directory record (counting from 0).\<close>

definition entry_at :: "byte list \<Rightarrow> nat \<Rightarrow> byte list" where
  "entry_at out i = take 16 (drop (6 + 16 * i) out)"

definition length_field :: "byte list \<Rightarrow> nat \<Rightarrow> int" where
  "length_field out i = field (entry_at out i) 8 4"

definition offset_field :: "byte list \<Rightarrow> nat \<Rightarrow> int" where
  "offset_field out i = field (entry_at out i) 12 4"

record dir_record =
  stored_width :: int
  stored_height :: int
  color_palette_count :: int
  reserved :: int
  color_planes :: int
  bits_per_pixel :: int
  payload_byte_length :: int
  payload_offset :: int

definition parse_record :: "byte list \<Rightarrow> dir_record" where
  "parse_record r =
     \<lparr>stored_width = field r 0 1, stored_height = field r 1 1,
      color_palette_count = field r 2 1, reserved = field r 3 1,
      color_planes = field r 4 2, bits_per_pixel = field r 6 2,
      payload_byte_length = field r 8 4, payload_offset = field r 12 4\<rparr>"

record ico =
  entry_count :: nat
  directory :: "dir_record list"

text \<open>
  Parsing fails (\<open>None\<close>) on a file shorter than its header, on a header whose reserved
  field is not 0 or whose type is not 1, and on a file shorter than the directory its
  header announces.
\<close>

definition parse_ico :: "byte list \<Rightarrow> ico option" where
  "parse_ico bs =
     (if length bs < 6 \<or> field bs 0 2 \<noteq> 0 \<or> field bs 2 2 \<noteq> 1 then None
      else
        (let n = nat (field bs 4 2) in
         if length bs < 6 + 16 * n then None
         else Some \<lparr>entry_count = n,
                    directory = map (\<lambda>i. parse_record (entry_at bs i)) [0..<n]\<rparr>))"

text \<open>
  The byte region a directory record points to: \<open>payload_byte_length\<close> bytes from
  \<open>payload_offset\<close>; \<open>None\<close> when the region is not inside the file.
\<close>

definition payload :: "byte list \<Rightarrow> dir_record \<Rightarrow> byte list option" where
  "payload bs r =
     (if 0 \<le> payload_offset r \<and> 0 \<le> payload_byte_length r \<and>
         nat (payload_offset r) + nat (payload_byte_length r) \<le> length bs
      then Some (take (nat (payload_byte_length r)) (drop (nat (payload_offset r)) bs))
      else None)"

text \<open>A stored width or height of 0 means 256.\<close>

definition logical_dimension :: "byte \<Rightarrow> int" where
  "logical_dimension stored = (if stored = 0 then 256 else uint stored)"

subsection \<open>The inputs the container's fields can hold\<close>

text \<open>
  The running sum of the specification: the header, the directory, and the payloads of the
  entries before the \<open>i\<close>-th.
\<close>

definition payload_start :: "img_info list \<Rightarrow> nat \<Rightarrow> int" where
  "payload_start images i =
     6 + 16 * int (length images) + (\<Sum>img \<leftarrow> take i images. int (length (data img)))"

text \<open>
  \<open>fits_from offset images\<close>: every value the first loop packs, started at \<open>offset\<close>, is
  in the range of its field. \<open>fits images\<close> adds the 16-bit entry count of the header.
  Lemma \<open>fits_iff\<close> below says the same by index.
\<close>

fun fits_from :: "int \<Rightarrow> img_info list \<Rightarrow> bool" where
  "fits_from offset [] = True"
| "fits_from offset (img # rest) =
     (0 \<le> size_px img \<and> int (length (data img)) < 2 ^ 32 \<and> 0 \<le> offset \<and> offset < 2 ^ 32 \<and>
      fits_from (offset + int (length (data img))) rest)"

definition fits :: "img_info list \<Rightarrow> bool" where
  "fits images \<longleftrightarrow>
     length images \<le> 65535 \<and> fits_from (6 + 16 * int (length images)) images"

subsection \<open>The bytes of a completed run\<close>

definition header_bytes :: "nat \<Rightarrow> byte list" where
  "header_bytes n = [0, 0, 1, 0] @ le_bytes 2 (int n)"

definition entry_bytes :: "img_info \<Rightarrow> int \<Rightarrow> byte list" where
  "entry_bytes img offset =
     [word_of_int (if size_px img < 256 then size_px img else 0),
      word_of_int (if size_px img < 256 then size_px img else 0),
      0, 0, 1, 0, 32, 0]
     @ le_bytes 4 (int (length (data img))) @ le_bytes 4 offset"

fun directory_bytes :: "img_info list \<Rightarrow> int \<Rightarrow> byte list" where
  "directory_bytes [] offset = []"
| "directory_bytes (img # rest) offset =
     entry_bytes img offset @ directory_bytes rest (offset + int (length (data img)))"

definition container :: "img_info list \<Rightarrow> byte list" where
  "container images =
     header_bytes (length images)
     @ directory_bytes images (6 + 16 * int (length images))
     @ concat (map data images)"

subsection \<open>What the claims say of an output\<close>

text \<open>
  Every directory record's offset field holds the running sum, and the output from that
  position on is the entry's payload followed by the payloads after it.
\<close>

definition payloads_located :: "img_info list \<Rightarrow> byte list \<Rightarrow> bool" where
  "payloads_located images out \<longleftrightarrow>
     (\<forall>i < length images.
        offset_field out i = payload_start images i \<and>
        drop (nat (offset_field out i)) out =
          data (images ! i) @ concat (map data (drop (Suc i) images)))"

text \<open>
  Parsing the output recovers the number of entries, and every record's region has the
  length of the entry's encoded bytes and holds exactly those bytes.
\<close>

definition recovers :: "img_info list \<Rightarrow> byte list \<Rightarrow> bool" where
  "recovers images out \<longleftrightarrow>
     (case parse_ico out of
        None \<Rightarrow> False
      | Some c \<Rightarrow>
          entry_count c = length images \<and> length (directory c) = length images \<and>
          (\<forall>i < length images.
             payload_byte_length (directory c ! i) = int (length (data (images ! i))) \<and>
             payload out (directory c ! i) = Some (data (images ! i))))"

text \<open>
  The header (reserved 0, type 1, the entry count, two bytes each) and after it one
  16-byte record per entry with the fixed fields 0, 0, 1 (two bytes) and 32 (two bytes),
  then the 4-byte length and the 4-byte offset.
\<close>

definition laid_out :: "img_info list \<Rightarrow> byte list \<Rightarrow> bool" where
  "laid_out images out \<longleftrightarrow>
     6 + 16 * length images \<le> length out \<and>
     take 6 out = [0, 0, 1, 0] @ le_bytes 2 (int (length images)) \<and>
     field out 4 2 = int (length images) \<and>
     (\<forall>i < length images.
        \<exists>stored_w stored_h.
          entry_at out i =
            [stored_w, stored_h, 0, 0, 1, 0, 32, 0]
            @ le_bytes 4 (int (length (data (images ! i))))
            @ le_bytes 4 (payload_start images i))"

subsection \<open>Sample inputs\<close>

definition sample :: "img_info list" where
  "sample = [\<lparr>size_px = 256, data = [1, 2, 3]\<rparr>, \<lparr>size_px = 16, data = [4, 5]\<rparr>]"

text \<open>The scenario of the specification: dimensions 256, 48 and 16.\<close>

definition scenario :: "byte list \<Rightarrow> byte list \<Rightarrow> byte list \<Rightarrow> img_info list" where
  "scenario d1 d2 d3 =
     [\<lparr>size_px = 256, data = d1\<rparr>, \<lparr>size_px = 48, data = d2\<rparr>, \<lparr>size_px = 16, data = d3\<rparr>]"

text \<open>
  Two entries of valid dimensions whose first payload has \<open>2 ^ 32 - 38\<close> bytes: the second
  payload would start at \<open>38 + (2 ^ 32 - 38) = 2 ^ 32\<close>, which no 4-byte field holds.
\<close>

definition huge_png :: "byte list" where
  "huge_png = replicate 4294967258 0"

definition oversized :: "img_info list" where
  "oversized = [\<lparr>size_px = 256, data = huge_png\<rparr>, \<lparr>size_px = 16, data = [7]\<rparr>]"

section \<open>The uploader: \<^verbatim>\<open>scripts/shift_manager_uploader.py\<close>\<close>

subsection \<open>The world of a run\<close>

type_synonym path = string

text \<open>
  The records handed to \<^verbatim>\<open>logger\<close>, one constructor per call site (\<open>Rule\<close> is a line of
  \<^verbatim>\<open>=\<close> or \<^verbatim>\<open>-\<close> signs; the time in the start banner and the text of a caught exception
  are left out).
\<close>

datatype log_record =
    Rule
  | Uploader_started
  | Watch_folder_missing
  | Found_CSV_files nat
  | No_CSV_files
  | Processing path
  | Uploaded path
  | Failed_to_upload path
  | Deleted_local_file path
  | Failed_to_delete path
  | Local_copy_remains path
  | Processing_complete nat nat

text \<open>
  What the run meets outside the script: whether the watch folder exists, what
  \<^verbatim>\<open>folder_path.glob("*.csv")\<close> yields (each path once, in the directory's order),
  whether the body of the \<^verbatim>\<open>try\<close> in \<^verbatim>\<open>upload_file\<close> completes for a path
  (\<open>upload_ok\<close>; otherwise it raises an \<^verbatim>\<open>Exception\<close>, which the function catches), and
  whether \<^verbatim>\<open>file_path.unlink()\<close> completes (\<open>unlink_ok\<close>).
\<close>

record env =
  folder_exists :: bool
  glob_csv :: "path list"
  upload_ok :: "path \<Rightarrow> bool"
  unlink_ok :: "path \<Rightarrow> bool"

text \<open>The local files and the log written so far.\<close>

record state =
  files :: "path set"
  log :: "log_record list"

definition logger :: "log_record \<Rightarrow> state \<Rightarrow> state" where
  "logger r st = st\<lparr>log := log st @ [r]\<rparr>"

subsection \<open>The functions\<close>

definition get_csv_files :: "env \<Rightarrow> state \<Rightarrow> path list \<times> state" where
  "get_csv_files e st =
     (if \<not> folder_exists e then ([], logger Watch_folder_missing st)
      else (glob_csv e, logger (Found_CSV_files (length (glob_csv e))) st))"

definition upload_file :: "env \<Rightarrow> path \<Rightarrow> state \<Rightarrow> bool \<times> state" where
  "upload_file e local_path st =
     (if upload_ok e local_path then (True, logger (Uploaded local_path) st)
      else (False, logger (Failed_to_upload local_path) st))"

definition delete_local_file :: "env \<Rightarrow> path \<Rightarrow> state \<Rightarrow> bool \<times> state" where
  "delete_local_file e file_path st =
     (if unlink_ok e file_path
      then (True, logger (Deleted_local_file file_path) (st\<lparr>files := files st - {file_path}\<rparr>))
      else (False, logger (Failed_to_delete file_path) st))"

text \<open>The \<^verbatim>\<open>for\<close> loop of \<^verbatim>\<open>process_files\<close> (lines 161 to 173) with its two counters.\<close>

fun process_loop :: "env \<Rightarrow> path list \<Rightarrow> nat \<Rightarrow> nat \<Rightarrow> state \<Rightarrow> nat \<times> nat \<times> state" where
  "process_loop e [] uploaded failed st = (uploaded, failed, st)"
| "process_loop e (csv_file # rest) uploaded failed st =
     (case upload_file e csv_file (logger (Processing csv_file) st) of
        (True, st1) \<Rightarrow>
          (case delete_local_file e csv_file st1 of
             (True, st2) \<Rightarrow> process_loop e rest (uploaded + 1) failed st2
           | (False, st2) \<Rightarrow>
               process_loop e rest (uploaded + 1) failed (logger (Local_copy_remains csv_file) st2))
      | (False, st1) \<Rightarrow> process_loop e rest uploaded (failed + 1) st1)"

text \<open>
  \<^verbatim>\<open>process_files\<close>, started with the local files \<open>local\<close> and an empty log. The function
  returns \<^verbatim>\<open>None\<close> on every path; what it leaves behind is the state.
\<close>

definition process_files :: "env \<Rightarrow> path set \<Rightarrow> state" where
  "process_files e local =
     (let st = logger Rule (logger Uploader_started (logger Rule \<lparr>files = local, log = []\<rparr>));
          (csv_files, st) = get_csv_files e st
      in if csv_files = [] then logger No_CSV_files st
         else
           (let (uploaded, failed, st) = process_loop e csv_files 0 0 st
            in logger Rule (logger (Processing_complete uploaded failed) (logger Rule st))))"

subsection \<open>What the claims say of a run\<close>

text \<open>The counts of the summary line, when the log ends with one.\<close>

definition summary :: "state \<Rightarrow> (nat \<times> nat) option" where
  "summary st =
     (case rev (log st) of
        Rule # Processing_complete uploaded failed # earlier \<Rightarrow> Some (uploaded, failed)
      | _ \<Rightarrow> None)"

text \<open>The records one file leaves in the log: they depend on that file's outcomes only.\<close>

definition file_log :: "env \<Rightarrow> path \<Rightarrow> log_record list" where
  "file_log e p =
     Processing p #
     (if upload_ok e p then
        Uploaded p #
        (if unlink_ok e p then [Deleted_local_file p]
         else [Failed_to_delete p, Local_copy_remains p])
      else [Failed_to_upload p])"

text \<open>Every deletion in a log comes right after the confirmed upload of the same file.\<close>

definition deletions_guarded :: "log_record list \<Rightarrow> bool" where
  "deletions_guarded lg \<longleftrightarrow>
     (\<forall>i < length lg. \<forall>p. lg ! i = Deleted_local_file p \<longrightarrow> 0 < i \<and> lg ! (i - 1) = Uploaded p)"

subsection \<open>Sample runs\<close>

text \<open>Two CSV files; the upload of the first succeeds, that of the second fails.\<close>

definition env0 :: env where
  "env0 = \<lparr>folder_exists = True, glob_csv = [''a.csv'', ''b.csv''],
           upload_ok = (\<lambda>p. p = ''a.csv''), unlink_ok = (\<lambda>p. True)\<rparr>"

text \<open>The same, but no local file can be deleted.\<close>

definition env1 :: env where
  "env1 = \<lparr>folder_exists = True, glob_csv = [''a.csv'', ''b.csv''],
           upload_ok = (\<lambda>p. p = ''a.csv''), unlink_ok = (\<lambda>p. False)\<rparr>"

text \<open>The watch folder exists and holds no CSV file.\<close>

definition env2 :: env where
  "env2 = \<lparr>folder_exists = True, glob_csv = [],
           upload_ok = (\<lambda>p. True), unlink_ok = (\<lambda>p. True)\<rparr>"

definition local0 :: "path set" where
  "local0 = {''a.csv'', ''b.csv'', ''notes.txt''}"

section \<open>Properties of the icon writer\<close>

subsection \<open>Packing\<close>

lemma length_le_bytes: "length (le_bytes n v) = n"
  by (induction n arbitrary: v) auto

lemma uint_byte_of_int: "uint (word_of_int v :: byte) = v mod 256"
  by (simp add: uint_word_of_int)

lemma le_value_le_bytes: "0 \<le> v \<Longrightarrow> v < 256 ^ n \<Longrightarrow> le_value (le_bytes n v) = v"
proof (induction n arbitrary: v)
  case 0
  then show ?case by simp
next
  case (Suc n)
  have "v div 256 < 256 ^ n" using Suc.prems by (simp add: div_less_iff_less_mult mult.commute)
  moreover have "0 \<le> v div 256" using Suc.prems by simp
  ultimately have "le_value (le_bytes n (v div 256)) = v div 256" by (rule Suc.IH[rotated])
  then show ?case by (simp add: uint_byte_of_int)
qed

lemma le_bytes_1: "le_bytes 1 v = [word_of_int v]"
  by simp

lemma le_bytes_2: "le_bytes 2 v = [word_of_int v, word_of_int (v div 256)]"
  by (simp add: numeral_2_eq_2)

lemma le_bytes_4:
  "le_bytes 4 v =
     [word_of_int v, word_of_int (v div 256), word_of_int (v div 256 div 256),
      word_of_int (v div 256 div 256 div 256)]"
  by (simp add: numeral_eq_Suc)

lemma pack_one_B:
  "pack_one Fmt_B v = (if 0 \<le> v \<and> v < 256 then Inr (le_bytes 1 v) else Inl StructError)"
  by (simp add: pack_one_def)

lemma pack_one_H:
  "pack_one Fmt_H v = (if 0 \<le> v \<and> v < 65536 then Inr (le_bytes 2 v) else Inl StructError)"
  by (simp add: pack_one_def)

lemma pack_one_I:
  "pack_one Fmt_I v = (if 0 \<le> v \<and> v < 4294967296 then Inr (le_bytes 4 v) else Inl StructError)"
  by (simp add: pack_one_def)

lemma struct_pack_header:
  "struct_pack [Fmt_H, Fmt_H, Fmt_H] [0, 1, int n] =
     (if n \<le> 65535 then Inr (header_bytes n) else Inl StructError)"
  by (simp add: pack_one_H header_bytes_def le_bytes_2)

lemma directory_entry_eq:
  "directory_entry img offset =
     (if 0 \<le> size_px img \<and> int (length (data img)) < 2 ^ 32 \<and> 0 \<le> offset \<and> offset < 2 ^ 32
      then Inr (entry_bytes img offset) else Inl StructError)"
  by (simp add: directory_entry_def pack_one_B pack_one_H pack_one_I entry_bytes_def
      le_bytes_1 le_bytes_2 Let_def)

subsection \<open>The two loops and the run\<close>

lemma write_directory_fits:
  "fits_from offset images \<Longrightarrow>
   write_directory images offset f = (Inr (), f @ directory_bytes images offset)"
  by (induction images arbitrary: offset f) (simp_all add: directory_entry_eq)

lemma write_directory_overflow:
  "\<not> fits_from offset images \<Longrightarrow> fst (write_directory images offset f) = Inl StructError"
  by (induction images arbitrary: offset f) (auto simp add: directory_entry_eq)

lemma write_image_data_eq: "write_image_data images f = f @ concat (map data images)"
  by (induction images arbitrary: f) simp_all

lemma write_ico_fits:
  "images \<noteq> [] \<Longrightarrow> fits images \<Longrightarrow>
   write_ico images old =
     \<lparr>result = Inr (), output_ico = Some (container images),
      printed = [Creating_ICO (length images), Created, ICO_ready, PNGs_preserved]\<rparr>"
  by (simp add: write_ico_def fits_def struct_pack_header write_directory_fits
      write_image_data_eq container_def del: struct_pack.simps)

lemma write_ico_overflow:
  "images \<noteq> [] \<Longrightarrow> \<not> fits images \<Longrightarrow> result (write_ico images old) = Inl StructError"
  using write_directory_overflow [of "6 + 16 * int (length images)" images "header_bytes (length images)"]
  by (auto simp add: write_ico_def fits_def struct_pack_header simp del: struct_pack.simps
      split: prod.splits sum.splits)

lemma write_ico_completed:
  assumes "result (write_ico images old) = Inr ()" and "images \<noteq> []"
  shows "fits images"
proof (rule ccontr)
  assume "\<not> fits images"
  from write_ico_overflow [OF assms(2) this, of old] assms(1) show False by simp
qed

lemma write_ico_completes_iff:
  "images \<noteq> [] \<Longrightarrow> result (write_ico images old) = Inr () \<longleftrightarrow> fits images"
  using write_ico_fits [of images old] write_ico_completed [of images old] by auto

lemma fits_from_iff:
  "fits_from offset images \<longleftrightarrow>
     (\<forall>i < length images.
        0 \<le> size_px (images ! i) \<and> int (length (data (images ! i))) < 2 ^ 32 \<and>
        0 \<le> offset + (\<Sum>img \<leftarrow> take i images. int (length (data img))) \<and>
        offset + (\<Sum>img \<leftarrow> take i images. int (length (data img))) < 2 ^ 32)"
proof (induction images arbitrary: offset)
  case Nil
  then show ?case by simp
next
  case (Cons img rest)
  show ?case
    by (simp add: Cons.IH All_less_Suc2 add.assoc del: fits_from.simps(2)
        add: fits_from.simps(2) [of offset img rest])
qed

lemma payload_start_nonneg: "0 \<le> payload_start images i"
proof -
  have "0 \<le> (\<Sum>img \<leftarrow> xs. int (length (data img)))" for xs :: "img_info list"
    by (induction xs) simp_all
  then show ?thesis unfolding payload_start_def by simp
qed

lemma fits_iff:
  "fits images \<longleftrightarrow>
     length images \<le> 65535 \<and>
     (\<forall>i < length images.
        0 \<le> size_px (images ! i) \<and> int (length (data (images ! i))) < 2 ^ 32 \<and>
        payload_start images i < 2 ^ 32)"
  unfolding fits_def fits_from_iff
  using payload_start_nonneg [of images]
  by (auto simp add: payload_start_def add.assoc)

lemma fits_nth:
  "fits images \<Longrightarrow> i < length images \<Longrightarrow>
   0 \<le> size_px (images ! i) \<and> int (length (data (images ! i))) < 2 ^ 32 \<and>
   payload_start images i < 2 ^ 32"
  by (simp add: fits_iff)

lemma fits_sample: "fits sample"
  by (simp add: fits_def sample_def)

lemma length_huge_png: "length huge_png = 4294967258"
  by (simp add: huge_png_def)

lemma write_ico_oversized:
  "write_ico oversized old =
     \<lparr>result = Inl StructError,
      output_ico = Some [0, 0, 1, 0, 2, 0,  0, 0, 0, 0, 1, 0, 32, 0, 218, 255, 255, 255, 38, 0, 0, 0],
      printed = [Creating_ICO 2]\<rparr>"
  by (simp add: write_ico_def oversized_def directory_entry_def Let_def
      pack_one_B pack_one_H pack_one_I length_huge_png le_bytes_2 le_bytes_4)

subsection \<open>The layout of a completed run\<close>

lemma length_header_bytes: "length (header_bytes n) = 6"
  by (simp add: header_bytes_def length_le_bytes)

lemma length_entry_bytes: "length (entry_bytes img offset) = 16"
  by (simp add: entry_bytes_def length_le_bytes)

lemma length_directory_bytes: "length (directory_bytes images offset) = 16 * length images"
  by (induction images arbitrary: offset) (simp_all add: length_entry_bytes)

lemma directory_bytes_nth:
  "i < length images \<Longrightarrow>
   take 16 (drop (16 * i) (directory_bytes images offset)) =
     entry_bytes (images ! i) (offset + (\<Sum>img \<leftarrow> take i images. int (length (data img))))"
proof (induction images arbitrary: i offset)
  case Nil
  then show ?case by simp
next
  case (Cons img rest)
  show ?case
  proof (cases i)
    case 0
    then show ?thesis by (simp add: length_entry_bytes)
  next
    case (Suc j)
    with Cons.prems have "j < length rest" by simp
    from Cons.IH [OF this, of "offset + int (length (data img))"]
    show ?thesis using Suc by (simp add: length_entry_bytes add.assoc)
  qed
qed

lemma drop_payloads:
  "drop (\<Sum>img \<leftarrow> take i images. length (data img)) (concat (map data images)) =
     concat (map data (drop i images))"
proof (induction images arbitrary: i)
  case Nil
  then show ?case by simp
next
  case (Cons img rest)
  then show ?case by (cases i) simp_all
qed

lemma nat_payload_start:
  "nat (payload_start images i) =
     6 + 16 * length images + (\<Sum>img \<leftarrow> take i images. length (data img))"
proof -
  have "(\<Sum>img \<leftarrow> xs. int (length (data img))) = int (\<Sum>img \<leftarrow> xs. length (data img))" for xs :: "img_info list"
    by (induction xs) simp_all
  then show ?thesis by (simp add: payload_start_def nat_add_distrib nat_mult_distrib)
qed

lemma container_header: "take 6 (container images) = header_bytes (length images)"
  by (simp add: container_def length_header_bytes)

lemma container_entry:
  assumes "i < length images"
  shows "take 16 (drop (6 + 16 * i) (container images)) =
           entry_bytes (images ! i) (payload_start images i)"
proof -
  have "drop (6 + 16 * i) (container images) =
          drop (16 * i) (directory_bytes images (6 + 16 * int (length images)))
          @ concat (map data images)"
    using assms by (simp add: container_def length_header_bytes length_directory_bytes)
  moreover have "16 \<le> length (drop (16 * i) (directory_bytes images (6 + 16 * int (length images))))"
    using assms by (simp add: length_directory_bytes)
  ultimately show ?thesis
    using directory_bytes_nth [OF assms, of "6 + 16 * int (length images)"]
    by (simp add: payload_start_def)
qed

lemma container_payloads:
  "drop (nat (payload_start images i)) (container images) = concat (map data (drop i images))"
proof -
  have "drop (nat (payload_start images i)) (container images) =
          drop (\<Sum>img \<leftarrow> take i images. length (data img)) (concat (map data images))"
    by (simp add: nat_payload_start container_def length_header_bytes length_directory_bytes)
  then show ?thesis by (simp add: drop_payloads)
qed

lemma length_container:
  "length (container images) =
     6 + 16 * length images + (\<Sum>img \<leftarrow> images. length (data img))"
  by (simp add: container_def length_header_bytes length_directory_bytes length_concat comp_def)

lemma entry_at_container:
  "i < length images \<Longrightarrow>
   entry_at (container images) i = entry_bytes (images ! i) (payload_start images i)"
  by (simp add: entry_at_def container_entry)

lemma offset_field_container:
  assumes "fits images" and "i < length images"
  shows "offset_field (container images) i = payload_start images i"
proof -
  have "payload_start images i < 256 ^ 4"
    using fits_nth [OF assms] by simp
  then show ?thesis
    using assms(2) payload_start_nonneg [of images i]
    by (simp add: offset_field_def field_def entry_at_container entry_bytes_def length_le_bytes
        le_value_le_bytes)
qed

lemma payloads_located_container:
  assumes "fits images"
  shows "payloads_located images (container images)"
  unfolding payloads_located_def
proof (intro allI impI conjI)
  fix i assume i: "i < length images"
  show off: "offset_field (container images) i = payload_start images i"
    by (rule offset_field_container [OF assms i])
  show "drop (nat (offset_field (container images) i)) (container images) =
          data (images ! i) @ concat (map data (drop (Suc i) images))"
    using i by (simp add: off container_payloads Cons_nth_drop_Suc [symmetric])
qed

lemma field_header:
  "n \<le> 65535 \<Longrightarrow>
   field (header_bytes n @ rest) 0 2 = 0 \<and> field (header_bytes n @ rest) 2 2 = 1 \<and>
   field (header_bytes n @ rest) 4 2 = int n"
  using le_value_le_bytes [of "int n" 2]
  by (simp add: field_def header_bytes_def length_le_bytes)

lemma parse_record_entry_bytes:
  assumes "int (length (data img)) < 2 ^ 32" "0 \<le> offset" "offset < 2 ^ 32"
  shows "payload_byte_length (parse_record (entry_bytes img offset)) = int (length (data img))"
    and "payload_offset (parse_record (entry_bytes img offset)) = offset"
  using assms le_value_le_bytes [of "int (length (data img))" 4] le_value_le_bytes [of offset 4]
  by (simp_all add: parse_record_def field_def entry_bytes_def length_le_bytes)

lemma sum_take_le:
  "i < length images \<Longrightarrow>
   (\<Sum>img \<leftarrow> take i images. length (data img)) + length (data (images ! i))
     \<le> (\<Sum>img \<leftarrow> images. length (data img))"
proof (induction images arbitrary: i)
  case Nil
  then show ?case by simp
next
  case (Cons img rest)
  then show ?case by (cases i) simp_all
qed

lemma parse_container:
  assumes "fits images"
  shows "parse_ico (container images) =
           Some \<lparr>entry_count = length images,
                 directory = map (\<lambda>i. parse_record (entry_bytes (images ! i) (payload_start images i)))
                               [0..<length images]\<rparr>"
proof -
  have n: "length images \<le> 65535" using assms by (simp add: fits_def)
  have c: "container images = header_bytes (length images) @
             (directory_bytes images (6 + 16 * int (length images)) @ concat (map data images))"
    by (simp add: container_def)
  have hdr: "field (container images) 0 2 = 0" "field (container images) 2 2 = 1"
    "field (container images) 4 2 = int (length images)"
    unfolding c using field_header [OF n] by blast+
  have len: "6 + 16 * length images \<le> length (container images)"
    by (simp add: length_container)
  have "map (\<lambda>i. parse_record (entry_at (container images) i)) [0..<length images] =
        map (\<lambda>i. parse_record (entry_bytes (images ! i) (payload_start images i))) [0..<length images]"
    by (rule map_cong) (simp_all add: entry_at_container)
  with len show ?thesis
    by (simp only: parse_ico_def hdr Let_def) simp
qed

lemma recovers_container:
  assumes "fits images"
  shows "recovers images (container images)"
proof -
  have "payload_byte_length (parse_record (entry_bytes (images ! i) (payload_start images i)))
          = int (length (data (images ! i))) \<and>
        payload (container images) (parse_record (entry_bytes (images ! i) (payload_start images i)))
          = Some (data (images ! i))"
    if i: "i < length images" for i
  proof -
    note b = fits_nth [OF assms i] payload_start_nonneg [of images i]
    have l: "payload_byte_length (parse_record (entry_bytes (images ! i) (payload_start images i)))
          = int (length (data (images ! i)))"
      and p: "payload_offset (parse_record (entry_bytes (images ! i) (payload_start images i)))
          = payload_start images i"
      using b by (simp_all add: parse_record_entry_bytes)
    have inside: "nat (payload_start images i) + length (data (images ! i)) \<le> length (container images)"
      using sum_take_le [OF i] by (simp add: nat_payload_start length_container)
    have "take (length (data (images ! i))) (drop (nat (payload_start images i)) (container images))
            = data (images ! i)"
      using i by (simp add: container_payloads Cons_nth_drop_Suc [symmetric])
    then show ?thesis
      using inside b by (simp add: payload_def l p)
  qed
  then show ?thesis
    by (simp add: recovers_def parse_container [OF assms])
qed

lemma laid_out_container:
  assumes "fits images"
  shows "laid_out images (container images)"
proof -
  have n: "length images \<le> 65535" using assms by (simp add: fits_def)
  have c: "container images = header_bytes (length images) @
             (directory_bytes images (6 + 16 * int (length images)) @ concat (map data images))"
    by (simp add: container_def)
  have "field (container images) 4 2 = int (length images)"
    unfolding c using field_header [OF n] by blast
  moreover have "take 6 (container images) = [0, 0, 1, 0] @ le_bytes 2 (int (length images))"
    by (simp add: container_header header_bytes_def)
  moreover have "6 + 16 * length images \<le> length (container images)"
    by (simp add: length_container)
  ultimately show ?thesis
    by (simp add: laid_out_def entry_at_container entry_bytes_def)
qed

subsection \<open>The images the script itself loads\<close>

text \<open>
  The script loads at most six images, of the dimensions of \<open>png_sizes\<close>: for them the
  only bound is on the total number of bytes.
\<close>

lemma load_images_sizes:
  "length (load_images png sizes) \<le> length sizes \<and>
   size_px ` set (load_images png sizes) \<subseteq> set sizes"
  by (induction sizes) (auto split: option.splits)

lemma sum_take_le_int:
  "(\<Sum>img \<leftarrow> take i images. int (length (data img)))
     \<le> (\<Sum>img \<leftarrow> (images :: img_info list). int (length (data img)))"
proof (induction images arbitrary: i)
  case Nil
  then show ?case by simp
next
  case (Cons img rest)
  show ?case
  proof (cases i)
    case 0
    have "0 \<le> (\<Sum>img \<leftarrow> xs. int (length (data img)))" for xs :: "img_info list"
      by (induction xs) simp_all
    from this [of "img # rest"] 0 show ?thesis by simp
  next
    case (Suc j)
    with Cons.IH [of j] show ?thesis by simp
  qed
qed

lemma elem_le_sum:
  "i < length images \<Longrightarrow>
   int (length (data (images ! i)))
     \<le> (\<Sum>img \<leftarrow> (images :: img_info list). int (length (data img)))"
proof (induction images arbitrary: i)
  case Nil
  then show ?case by simp
next
  case (Cons img rest)
  have nn: "0 \<le> (\<Sum>img \<leftarrow> xs. int (length (data img)))" for xs :: "img_info list"
    by (induction xs) simp_all
  show ?case
  proof (cases i)
    case 0
    with nn [of rest] show ?thesis by simp
  next
    case (Suc j)
    with Cons.prems Cons.IH [of j] show ?thesis by simp
  qed
qed

lemma fits_loaded:
  assumes "102 + (\<Sum>img \<leftarrow> load_images png png_sizes. int (length (data img))) < 2 ^ 32"
  shows "fits (load_images png png_sizes)"
proof -
  let ?images = "load_images png png_sizes"
  from load_images_sizes [of png png_sizes]
  have n: "length ?images \<le> 6" and s: "size_px ` set ?images \<subseteq> set png_sizes"
    by (simp_all add: png_sizes_def)
  have "0 \<le> size_px (?images ! i) \<and> int (length (data (?images ! i))) < 2 ^ 32 \<and>
        payload_start ?images i < 2 ^ 32" if i: "i < length ?images" for i
  proof -
    from i s have "size_px (?images ! i) \<in> set png_sizes" by (meson image_subset_iff nth_mem)
    then have "0 \<le> size_px (?images ! i)" by (auto simp add: png_sizes_def)
    moreover from elem_le_sum [OF i] assms have "int (length (data (?images ! i))) < 2 ^ 32"
      by simp
    moreover from sum_take_le_int [of i ?images] assms n
    have "payload_start ?images i < 2 ^ 32"
      by (simp add: payload_start_def)
    ultimately show ?thesis by simp
  qed
  with n show ?thesis by (simp add: fits_iff)
qed

lemma create_ico_from_pngs_fits:
  assumes "load_images png png_sizes \<noteq> []"
    and "102 + (\<Sum>img \<leftarrow> load_images png png_sizes. int (length (data img))) < 2 ^ 32"
  shows "result (create_ico_from_pngs png old) = Inr () \<and>
         output_ico (create_ico_from_pngs png old) = Some (container (load_images png png_sizes))"
  by (simp add: create_ico_from_pngs_def Let_def write_ico_fits [OF assms(1) fits_loaded [OF assms(2)]])

subsection \<open>The claims\<close>

text \<open>
  Claim C1, as amended. For every non-empty sequence of entries that fits the fields of
  the container (at most 65535 entries, no negative dimension, every payload length and
  every payload offset below \<open>2 ^ 32\<close>), the run completes, the first record's offset is
  \<open>6 + 16 * count\<close>, every record's offset is the running sum \<open>payload_start\<close>, and the
  output from that offset on is the entry's payload (followed by the later payloads).
\<close>

theorem payload_offsets:
  assumes "images \<noteq> []" and "fits images"
  shows "\<exists>out. result (write_ico images old) = Inr () \<and>
           output_ico (write_ico images old) = Some out \<and>
           offset_field out 0 = 6 + 16 * int (length images) \<and>
           payloads_located images out"
proof -
  have "0 < length images" using assms(1) by simp
  from offset_field_container [OF assms(2) this]
  have "offset_field (container images) 0 = 6 + 16 * int (length images)"
    by (simp add: payload_start_def)
  then show ?thesis
    using payloads_located_container [OF assms(2)]
    by (simp add: write_ico_fits [OF assms])
qed

text \<open>The theorem of claim C1 at the two entries of \<open>sample\<close>: the first offset is 38.\<close>

theorem payload_offsets_witness:
  "sample \<noteq> [] \<and> fits sample \<and>
   (\<exists>out. result (write_ico sample None) = Inr () \<and> output_ico (write_ico sample None) = Some out \<and>
      offset_field out 0 = 38 \<and> payloads_located sample out)"
  using payload_offsets [of sample None] fits_sample
  by (simp add: sample_def)

text \<open>
  Claim C1 as stated, for every non-empty sequence, fails at \<open>oversized\<close>: packing the
  second record raises \<^verbatim>\<open>struct.error\<close>, the file is left with the header and one record,
  and no payload is in it.
\<close>

theorem payload_offsets_counterexample:
  "oversized \<noteq> [] \<and> result (write_ico oversized None) = Inl StructError \<and>
   \<not> (\<exists>out. output_ico (write_ico oversized None) = Some out \<and> payloads_located oversized out)"
proof -
  have "offset_field [0, 0, 1, 0, 2, 0, 0, 0, 0, 0, 1, 0, 32, 0, 218, 255, 255, 255, 38, 0, 0, 0] 1
          \<noteq> payload_start oversized 1"
    by (simp add: offset_field_def field_def entry_at_def payload_start_def oversized_def length_huge_png)
  moreover have "(1::nat) < length oversized"
    by (simp add: oversized_def)
  ultimately have
    "\<not> payloads_located oversized
         [0, 0, 1, 0, 2, 0, 0, 0, 0, 0, 1, 0, 32, 0, 218, 255, 255, 255, 38, 0, 0, 0]"
    unfolding payloads_located_def by blast
  moreover have "oversized \<noteq> []"
    by (simp add: oversized_def)
  ultimately show ?thesis
    by (simp add: write_ico_oversized)
qed

text \<open>
  Claim C2, as amended. For every non-empty sequence of entries that fits the fields of
  the container, the run completes and parsing its output recovers the number of entries
  and, for every entry, a region of exactly the entry's length that holds exactly the
  entry's encoded bytes.
\<close>

theorem write_then_parse:
  assumes "images \<noteq> []" and "fits images"
  shows "\<exists>out. result (write_ico images old) = Inr () \<and>
           output_ico (write_ico images old) = Some out \<and> recovers images out"
  using recovers_container [OF assms(2)] by (simp add: write_ico_fits [OF assms])

text \<open>The theorem of claim C2 at \<open>sample\<close>.\<close>

theorem write_then_parse_witness:
  "sample \<noteq> [] \<and> fits sample \<and>
   (\<exists>out. result (write_ico sample None) = Inr () \<and>
      output_ico (write_ico sample None) = Some out \<and> recovers sample out)"
  using write_then_parse [of sample None] fits_sample
  by (simp add: sample_def)

text \<open>
  Claim C2 as stated fails at \<open>oversized\<close>, whose dimensions are valid: the file the run
  leaves announces two entries and holds one record, so it does not parse.
\<close>

theorem write_then_parse_counterexample:
  "oversized \<noteq> [] \<and> list_all (\<lambda>img. 1 \<le> size_px img \<and> size_px img \<le> 256) oversized \<and>
   \<not> (\<exists>out. output_ico (write_ico oversized None) = Some out \<and> recovers oversized out)"
proof -
  have "parse_ico [0, 0, 1, 0, 2, 0, 0, 0, 0, 0, 1, 0, 32, 0, 218, 255, 255, 255, 38, 0, 0, 0] = None"
    by (simp add: parse_ico_def field_def)
  then have "\<not> recovers oversized
      [0, 0, 1, 0, 2, 0, 0, 0, 0, 0, 1, 0, 32, 0, 218, 255, 255, 255, 38, 0, 0, 0]"
    by (simp add: recovers_def)
  moreover have "oversized \<noteq> [] \<and> list_all (\<lambda>img. 1 \<le> size_px img \<and> size_px img \<le> 256) oversized"
    by (simp add: oversized_def)
  ultimately show ?thesis
    by (simp add: write_ico_oversized)
qed

text \<open>
  Claim C3, as amended. For every non-empty sequence of entries that fits the fields of
  the container, the run completes and its output begins with the header 0, 1, count (two
  bytes each, little-endian) followed by one 16-byte record per entry, whose bytes 2 to 7
  are 0, 0, 1, 0, 32, 0 and whose last eight bytes are the payload length and the payload
  offset, four bytes each.
\<close>

theorem header_and_directory:
  assumes "images \<noteq> []" and "fits images"
  shows "\<exists>out. result (write_ico images old) = Inr () \<and>
           output_ico (write_ico images old) = Some out \<and> laid_out images out"
  using laid_out_container [OF assms(2)] by (simp add: write_ico_fits [OF assms])

text \<open>The theorem of claim C3 at \<open>sample\<close>.\<close>

theorem header_and_directory_witness:
  "sample \<noteq> [] \<and> fits sample \<and>
   (\<exists>out. result (write_ico sample None) = Inr () \<and>
      output_ico (write_ico sample None) = Some out \<and> laid_out sample out)"
  using header_and_directory [of sample None] fits_sample
  by (simp add: sample_def)

text \<open>
  Claim C3 as stated, for every non-empty input, fails at \<open>oversized\<close>: the output is
  shorter than a header and two records.
\<close>

theorem header_and_directory_counterexample:
  "oversized \<noteq> [] \<and>
   \<not> (\<exists>out. output_ico (write_ico oversized None) = Some out \<and> laid_out oversized out)"
  by (simp add: write_ico_oversized laid_out_def) (simp add: oversized_def)

text \<open>
  Claim C4. In the output of a completed run, the record of every entry is what
  \<open>directory_entry\<close> packs for it; its first two bytes are the dimension when that is
  between 1 and 255 and are 0 when it is 256, and read with "0 means 256" they give the
  dimension back for every dimension from 1 to 256.
\<close>

theorem stored_dimension:
  assumes "result (write_ico images old) = Inr ()"
    and "output_ico (write_ico images old) = Some out"
    and "i < length images"
  shows "\<exists>entry. directory_entry (images ! i) (payload_start images i) = Inr entry \<and>
           entry_at out i = entry \<and>
           (1 \<le> size_px (images ! i) \<and> size_px (images ! i) \<le> 255 \<longrightarrow>
              uint (entry ! 0) = size_px (images ! i) \<and> uint (entry ! 1) = size_px (images ! i)) \<and>
           (size_px (images ! i) = 256 \<longrightarrow> entry ! 0 = 0 \<and> entry ! 1 = 0) \<and>
           (1 \<le> size_px (images ! i) \<and> size_px (images ! i) \<le> 256 \<longrightarrow>
              logical_dimension (entry ! 0) = size_px (images ! i) \<and>
              logical_dimension (entry ! 1) = size_px (images ! i))"
proof -
  from assms(3) have ne: "images \<noteq> []" by auto
  have f: "fits images" by (rule write_ico_completed [OF assms(1) ne])
  from assms(2) have out: "out = container images"
    by (simp add: write_ico_fits [OF ne f])
  note b = fits_nth [OF f assms(3)] payload_start_nonneg [of images i]
  have "directory_entry (images ! i) (payload_start images i) =
          Inr (entry_bytes (images ! i) (payload_start images i))"
    using b by (simp add: directory_entry_eq)
  moreover have "entry_at out i = entry_bytes (images ! i) (payload_start images i)"
    by (simp add: out entry_at_container [OF assms(3)])
  moreover have "1 \<le> s \<and> s \<le> 255 \<longrightarrow> uint (word_of_int s :: byte) = s" for s :: int
    by (simp add: uint_byte_of_int)
  moreover have "1 \<le> s \<and> s \<le> 255 \<longrightarrow> (word_of_int s :: byte) \<noteq> 0" for s :: int
    by (auto simp add: word_of_int_eq_0_iff dest: zdvd_imp_le)
  ultimately show ?thesis
    by (auto simp add: entry_bytes_def logical_dimension_def)
qed

text \<open>The theorem of claim C4 at the first entry of \<open>sample\<close>, of dimension 256.\<close>

theorem stored_dimension_witness:
  "result (write_ico sample None) = Inr () \<and>
   output_ico (write_ico sample None) =
     Some [0, 0, 1, 0, 2, 0,
           0, 0, 0, 0, 1, 0, 32, 0, 3, 0, 0, 0, 38, 0, 0, 0,
           16, 16, 0, 0, 1, 0, 32, 0, 2, 0, 0, 0, 41, 0, 0, 0,
           1, 2, 3, 4, 5] \<and>
   (\<exists>entry. entry_at [0, 0, 1, 0, 2, 0,
           0, 0, 0, 0, 1, 0, 32, 0, 3, 0, 0, 0, 38, 0, 0, 0,
           16, 16, 0, 0, 1, 0, 32, 0, 2, 0, 0, 0, 41, 0, 0, 0,
           1, 2, 3, 4, 5] 0 = entry \<and> entry ! 0 = 0 \<and> logical_dimension (entry ! 0) = 256)"
proof -
  have w: "write_ico sample None =
     \<lparr>result = Inr (),
      output_ico = Some [0, 0, 1, 0, 2, 0,
           0, 0, 0, 0, 1, 0, 32, 0, 3, 0, 0, 0, 38, 0, 0, 0,
           16, 16, 0, 0, 1, 0, 32, 0, 2, 0, 0, 0, 41, 0, 0, 0,
           1, 2, 3, 4, 5],
      printed = [Creating_ICO 2, Created, ICO_ready, PNGs_preserved]\<rparr>"
    by (simp add: write_ico_def sample_def directory_entry_def Let_def
        pack_one_B pack_one_H pack_one_I le_bytes_2 le_bytes_4)
  have i: "0 < length sample" by (simp add: sample_def)
  from stored_dimension [of sample None _ 0, OF _ _ i] w
  show ?thesis by (simp add: sample_def entry_at_def logical_dimension_def)
qed

text \<open>
  Claim C5, as amended. With no image the function prints its error line and returns
  normally: nothing is raised, and the output file is never opened, so it stays as it was
  (absent if it was absent).
\<close>

theorem empty_input:
  "write_ico [] old =
     \<lparr>result = Inr (), output_ico = old, printed = [Error_No_PNG_files_found]\<rparr> \<and>
   create_ico_from_pngs (\<lambda>size. None) old =
     \<lparr>result = Inr (), output_ico = old,
      printed = [Loading_PNG_files, Error_No_PNG_files_found]\<rparr>"
  by (simp add: write_ico_def create_ico_from_pngs_def png_sizes_def)

text \<open>The theorem of claim C5 with a file already at the output path.\<close>

theorem empty_input_witness:
  "write_ico [] (Some [1, 2]) =
     \<lparr>result = Inr (), output_ico = Some [1, 2], printed = [Error_No_PNG_files_found]\<rparr>"
  using empty_input [of "Some [1, 2]"] by simp

text \<open>Claim C5 as stated fails: on the empty sequence the call raises no error.\<close>

theorem empty_input_counterexample:
  "\<not> (\<exists>e. result (write_ico [] None) = Inl e)"
  by (simp add: write_ico_def)

text \<open>
  Claim C6. For dimensions 256, 48, 16 and payloads of 1000, 400 and 150 bytes the
  directory base offset is 54 and the three records carry the offsets 54, 1054 and 1454
  (bytes 54 0 0 0, 30 4 0 0 and 174 5 0 0).
\<close>

theorem three_entries:
  assumes "length d1 = 1000" and "length d2 = 400" and "length d3 = 150"
  shows "6 + 16 * int (length (scenario d1 d2 d3)) = 54 \<and>
         write_ico (scenario d1 d2 d3) old =
           \<lparr>result = Inr (),
            output_ico = Some
              ([0, 0, 1, 0, 3, 0,
                0, 0, 0, 0, 1, 0, 32, 0, 232, 3, 0, 0, 54, 0, 0, 0,
                48, 48, 0, 0, 1, 0, 32, 0, 144, 1, 0, 0, 30, 4, 0, 0,
                16, 16, 0, 0, 1, 0, 32, 0, 150, 0, 0, 0, 174, 5, 0, 0] @ d1 @ d2 @ d3),
            printed = [Creating_ICO 3, Created, ICO_ready, PNGs_preserved]\<rparr> \<and>
         (\<exists>out. output_ico (write_ico (scenario d1 d2 d3) old) = Some out \<and>
            offset_field out 0 = 54 \<and> offset_field out 1 = 1054 \<and> offset_field out 2 = 1454)"
proof -
  have w: "write_ico (scenario d1 d2 d3) old =
           \<lparr>result = Inr (),
            output_ico = Some
              ([0, 0, 1, 0, 3, 0,
                0, 0, 0, 0, 1, 0, 32, 0, 232, 3, 0, 0, 54, 0, 0, 0,
                48, 48, 0, 0, 1, 0, 32, 0, 144, 1, 0, 0, 30, 4, 0, 0,
                16, 16, 0, 0, 1, 0, 32, 0, 150, 0, 0, 0, 174, 5, 0, 0] @ d1 @ d2 @ d3),
            printed = [Creating_ICO 3, Created, ICO_ready, PNGs_preserved]\<rparr>"
    using assms
    by (simp add: write_ico_def scenario_def directory_entry_def Let_def
        pack_one_B pack_one_H pack_one_I le_bytes_2 le_bytes_4)
  show ?thesis
    unfolding w by (simp add: scenario_def offset_field_def field_def entry_at_def)
qed

text \<open>The theorem of claim C6 at three constant payloads.\<close>

theorem three_entries_witness:
  "length (replicate 1000 (0::byte)) = 1000 \<and> length (replicate 400 (1::byte)) = 400 \<and>
   length (replicate 150 (2::byte)) = 150 \<and>
   (\<exists>out. output_ico (write_ico (scenario (replicate 1000 0) (replicate 400 1) (replicate 150 2)) None)
            = Some out \<and>
      offset_field out 0 = 54 \<and> offset_field out 1 = 1054 \<and> offset_field out 2 = 1454)"
  using three_entries [of "replicate 1000 0" "replicate 400 1" "replicate 150 2" None]
  by (simp add: offset_field_def field_def entry_at_def)

text \<open>
  Claim C7. The run is a function of the entries: running again on what the first run
  left gives the same run, and for a non-empty sequence the run does not depend on what
  was at the output path before.
\<close>

theorem rerun_identical:
  "write_ico images (output_ico (write_ico images old)) = write_ico images old \<and>
   (images \<noteq> [] \<longrightarrow> write_ico images old1 = write_ico images old2) \<and>
   create_ico_from_pngs png (output_ico (create_ico_from_pngs png old)) =
     create_ico_from_pngs png old"
proof -
  have a: "images \<noteq> [] \<Longrightarrow> write_ico images o1 = write_ico images o2" for images o1 o2
    by (simp add: write_ico_def)
  have b: "write_ico images (output_ico (write_ico images old)) = write_ico images old" for images old
    by (cases "images = []") (simp add: write_ico_def, rule a)
  show ?thesis
    using a [of images old1 old2] b [of images old] b [of "load_images png png_sizes" old]
    by (simp add: create_ico_from_pngs_def Let_def)
qed

text \<open>The theorem of claim C7 at \<open>sample\<close>, with and without a file at the output path.\<close>

theorem rerun_identical_witness:
  "sample \<noteq> [] \<and> write_ico sample None = write_ico sample (Some [9, 9])"
  using rerun_identical [of sample None None "Some [9, 9]"]
  by (simp add: sample_def)

section \<open>Properties of the uploader\<close>

subsection \<open>The run in closed form\<close>

lemma process_loop_eq:
  "process_loop e ps uploaded failed st =
     (uploaded + length (filter (upload_ok e) ps),
      failed + length (filter (\<lambda>p. \<not> upload_ok e p) ps),
      \<lparr>files = files st - {p \<in> set ps. upload_ok e p \<and> unlink_ok e p},
       log = log st @ concat (map (file_log e) ps)\<rparr>)"
proof (induction ps arbitrary: uploaded failed st)
  case Nil
  then show ?case by simp
next
  case (Cons p ps)
  have "files st - {p} - {x \<in> set ps. upload_ok e x \<and> unlink_ok e x} =
        files st - {x. (x = p \<or> x \<in> set ps) \<and> upload_ok e x \<and> unlink_ok e x}"
    if "upload_ok e p" "unlink_ok e p"
    using that by auto
  moreover have "{x \<in> set ps. upload_ok e x \<and> unlink_ok e x} =
        {x. (x = p \<or> x \<in> set ps) \<and> upload_ok e x \<and> unlink_ok e x}"
    if "\<not> (upload_ok e p \<and> unlink_ok e p)"
    using that by auto
  ultimately show ?case
    by (simp add: Cons.IH upload_file_def delete_local_file_def logger_def file_log_def)
qed

lemma process_files_eq:
  "process_files e local =
     (if \<not> folder_exists e then
        \<lparr>files = local, log = [Rule, Uploader_started, Rule, Watch_folder_missing, No_CSV_files]\<rparr>
      else if glob_csv e = [] then
        \<lparr>files = local, log = [Rule, Uploader_started, Rule, Found_CSV_files 0, No_CSV_files]\<rparr>
      else
        \<lparr>files = local - {p \<in> set (glob_csv e). upload_ok e p \<and> unlink_ok e p},
         log = [Rule, Uploader_started, Rule, Found_CSV_files (length (glob_csv e))]
               @ concat (map (file_log e) (glob_csv e))
               @ [Rule,
                  Processing_complete (length (filter (upload_ok e) (glob_csv e)))
                    (length (filter (\<lambda>p. \<not> upload_ok e p) (glob_csv e))),
                  Rule]\<rparr>)"
  by (simp add: process_files_def get_csv_files_def logger_def process_loop_eq Let_def)

lemma summary_process_files:
  "folder_exists e \<Longrightarrow> glob_csv e \<noteq> [] \<Longrightarrow>
   summary (process_files e local) =
     Some (length (filter (upload_ok e) (glob_csv e)),
           length (filter (\<lambda>p. \<not> upload_ok e p) (glob_csv e)))"
  by (simp add: process_files_eq summary_def)

lemma summary_nothing_found:
  "\<not> folder_exists e \<or> glob_csv e = [] \<Longrightarrow>
   summary (process_files e local) = None \<and> files (process_files e local) = local"
  by (auto simp add: process_files_eq summary_def)

lemma files_process_files:
  "files (process_files e local) =
     (if folder_exists e then local - {p \<in> set (glob_csv e). upload_ok e p \<and> unlink_ok e p}
      else local)"
  by (auto simp add: process_files_eq)

lemma deletions_guarded_append:
  assumes "deletions_guarded xs" and "deletions_guarded ys"
  shows "deletions_guarded (xs @ ys)"
  unfolding deletions_guarded_def
proof (intro allI impI)
  fix i p
  assume i: "i < length (xs @ ys)" and d: "(xs @ ys) ! i = Deleted_local_file p"
  show "0 < i \<and> (xs @ ys) ! (i - 1) = Uploaded p"
  proof (cases "i < length xs")
    case True
    with d assms(1) have "0 < i \<and> xs ! (i - 1) = Uploaded p"
      by (simp add: deletions_guarded_def nth_append)
    moreover from True have "i - 1 < length xs" by simp
    ultimately show ?thesis by (simp add: nth_append)
  next
    case False
    define j where "j = i - length xs"
    from False i have j: "j < length ys" and ij: "i = length xs + j"
      by (simp_all add: j_def)
    from d have "ys ! j = Deleted_local_file p"
      by (simp add: ij)
    with j assms(2) have "0 < j \<and> ys ! (j - 1) = Uploaded p"
      unfolding deletions_guarded_def by blast
    moreover from this have "i - 1 = length xs + (j - 1)"
      using ij by simp
    ultimately show ?thesis
      using ij by (simp only: nth_append_length_plus) simp
  qed
qed

lemma deletions_guarded_no_delete:
  "(\<forall>p. Deleted_local_file p \<notin> set lg) \<Longrightarrow> deletions_guarded lg"
  unfolding deletions_guarded_def by (metis nth_mem)

lemma deletions_guarded_file_log: "deletions_guarded (file_log e p)"
  by (auto simp add: deletions_guarded_def file_log_def nth_Cons split: nat.splits)

lemma deletions_guarded_files: "deletions_guarded (concat (map (file_log e) ps))"
  by (induction ps)
     (simp_all add: deletions_guarded_append deletions_guarded_file_log deletions_guarded_no_delete)

lemma deletions_guarded_process_files: "deletions_guarded (log (process_files e local))"
proof -
  have a: "deletions_guarded [Rule, Uploader_started, Rule, Watch_folder_missing, No_CSV_files]"
    "deletions_guarded [Rule, Uploader_started, Rule, Found_CSV_files 0, No_CSV_files]"
    by (rule deletions_guarded_no_delete, auto)+
  have b: "deletions_guarded [Rule, Uploader_started, Rule, Found_CSV_files n]" for n
    by (rule deletions_guarded_no_delete) auto
  have c: "deletions_guarded [Rule, Processing_complete u f, Rule]" for u f
    by (rule deletions_guarded_no_delete) auto
  have d: "deletions_guarded
      ([Rule, Uploader_started, Rule, Found_CSV_files n] @ concat (map (file_log e) ps)
       @ [Rule, Processing_complete u f, Rule])" for n ps u f
    by (intro deletions_guarded_append deletions_guarded_files b c)
  show ?thesis
    using a d [of "length (glob_csv e)" "glob_csv e"] by (simp add: process_files_eq)
qed

subsection \<open>The claims\<close>

text \<open>
  Claim C8, as amended. When the watch folder exists and the scan finds at least one CSV
  file, the log of the run is the start banner, then for every file in turn the records
  of that file alone (\<open>file_log\<close>), then the summary: a failed upload stops nothing, and
  the summary counts the files whose upload succeeded and those whose upload failed. When
  the folder is missing or the scan finds nothing, the run ends with no summary and
  leaves the local files as they are. With two files found, one upload succeeding and one
  failing, the summary is 1 uploaded and 1 failed, the failed file is still on disk, the
  succeeded file is gone when its deletion succeeds, and it is still on disk (and still
  counted as uploaded) when its deletion fails.
\<close>

theorem continue_on_error:
  "(folder_exists e \<and> glob_csv e \<noteq> [] \<longrightarrow>
      log (process_files e local) =
        [Rule, Uploader_started, Rule, Found_CSV_files (length (glob_csv e))]
        @ concat (map (file_log e) (glob_csv e))
        @ [Rule,
           Processing_complete (length (filter (upload_ok e) (glob_csv e)))
             (length (filter (\<lambda>p. \<not> upload_ok e p) (glob_csv e))),
           Rule] \<and>
      summary (process_files e local) =
        Some (length (filter (upload_ok e) (glob_csv e)),
              length (filter (\<lambda>p. \<not> upload_ok e p) (glob_csv e)))) \<and>
   (\<not> folder_exists e \<or> glob_csv e = [] \<longrightarrow>
      summary (process_files e local) = None \<and> files (process_files e local) = local) \<and>
   (folder_exists e \<and> (glob_csv e = [p, q] \<or> glob_csv e = [q, p]) \<and>
    upload_ok e p \<and> \<not> upload_ok e q \<longrightarrow>
      summary (process_files e local) = Some (1, 1) \<and>
      (q \<in> local \<longrightarrow> q \<in> files (process_files e local)) \<and>
      (unlink_ok e p \<longrightarrow> p \<notin> files (process_files e local)) \<and>
      (\<not> unlink_ok e p \<and> p \<in> local \<longrightarrow> p \<in> files (process_files e local)))"
proof (intro conjI impI)
  assume "folder_exists e \<and> glob_csv e \<noteq> []"
  then show "log (process_files e local) =
        [Rule, Uploader_started, Rule, Found_CSV_files (length (glob_csv e))]
        @ concat (map (file_log e) (glob_csv e))
        @ [Rule,
           Processing_complete (length (filter (upload_ok e) (glob_csv e)))
             (length (filter (\<lambda>p. \<not> upload_ok e p) (glob_csv e))),
           Rule]"
    by (simp add: process_files_eq)
next
  assume "folder_exists e \<and> glob_csv e \<noteq> []"
  then show "summary (process_files e local) =
        Some (length (filter (upload_ok e) (glob_csv e)),
              length (filter (\<lambda>p. \<not> upload_ok e p) (glob_csv e)))"
    by (simp add: summary_process_files)
next
  assume "\<not> folder_exists e \<or> glob_csv e = []"
  then show "summary (process_files e local) = None"
    and "files (process_files e local) = local"
    using summary_nothing_found [of e local] by simp_all
next
  assume two: "folder_exists e \<and> (glob_csv e = [p, q] \<or> glob_csv e = [q, p]) \<and>
    upload_ok e p \<and> \<not> upload_ok e q"
  then have "glob_csv e \<noteq> []" by auto
  with two show "summary (process_files e local) = Some (1, 1)"
    by (auto simp add: summary_process_files)
  from two show "q \<in> files (process_files e local)" if "q \<in> local"
    using that by (auto simp add: files_process_files)
  from two show "p \<notin> files (process_files e local)" if "unlink_ok e p"
    using that by (auto simp add: files_process_files)
  from two show "p \<in> files (process_files e local)" if "\<not> unlink_ok e p \<and> p \<in> local"
    using that by (auto simp add: files_process_files)
qed

text \<open>
  The theorem of claim C8 at the sample runs: \<open>env0\<close> (the deletion succeeds), \<open>env1\<close>
  (the deletion fails) and \<open>env2\<close> (nothing is found).
\<close>

theorem continue_on_error_witness:
  "folder_exists env0 \<and> glob_csv env0 = [''a.csv'', ''b.csv''] \<and>
   upload_ok env0 ''a.csv'' \<and> \<not> upload_ok env0 ''b.csv'' \<and> unlink_ok env0 ''a.csv'' \<and>
   ''a.csv'' \<in> local0 \<and> ''b.csv'' \<in> local0 \<and>
   summary (process_files env0 local0) = Some (1, 1) \<and>
   ''b.csv'' \<in> files (process_files env0 local0) \<and>
   ''a.csv'' \<notin> files (process_files env0 local0) \<and>
   folder_exists env1 \<and> glob_csv env1 = [''a.csv'', ''b.csv''] \<and>
   upload_ok env1 ''a.csv'' \<and> \<not> upload_ok env1 ''b.csv'' \<and> \<not> unlink_ok env1 ''a.csv'' \<and>
   summary (process_files env1 local0) = Some (1, 1) \<and>
   ''b.csv'' \<in> files (process_files env1 local0) \<and>
   ''a.csv'' \<in> files (process_files env1 local0) \<and>
   glob_csv env2 = [] \<and>
   summary (process_files env2 local0) = None \<and> files (process_files env2 local0) = local0"
  using continue_on_error [where e = env0 and p = "''a.csv''" and q = "''b.csv''" and local = local0]
    continue_on_error [where e = env1 and p = "''a.csv''" and q = "''b.csv''" and local = local0]
    continue_on_error [where e = env2 and p = "''a.csv''" and q = "''b.csv''" and local = local0]
  by (simp add: env0_def env1_def env2_def local0_def)

text \<open>
  Claim C8 as stated fails twice. At \<open>env1\<close>, of two files one upload succeeds and one
  fails, the summary is 1 and 1, and the succeeded file is still on disk, because its
  deletion failed. At \<open>env2\<close> the scan finds no file and the run ends with no summary.
\<close>

theorem continue_on_error_counterexample:
  "folder_exists env1 \<and> glob_csv env1 = [''a.csv'', ''b.csv''] \<and>
   upload_ok env1 ''a.csv'' \<and> \<not> upload_ok env1 ''b.csv'' \<and>
   summary (process_files env1 local0) = Some (1, 1) \<and>
   ''a.csv'' \<in> local0 \<and> ''a.csv'' \<in> files (process_files env1 local0) \<and>
   folder_exists env2 \<and> glob_csv env2 = [] \<and> summary (process_files env2 local0) = None"
  by (simp add: env1_def env2_def local0_def summary_def process_files_eq)

text \<open>
  Claim C9. A file whose upload succeeds and whose deletion fails adds one to
  \<open>uploaded\<close> and nothing to \<open>failed\<close>, leaves the local files as they are, and the
  loop goes on with the next file; in the whole run it is among the files the summary
  counts as uploaded, no failure to upload is logged for it, and it is still on disk.
\<close>

theorem delete_failure_counts_as_uploaded:
  assumes "upload_ok e p" and "\<not> unlink_ok e p"
  shows "process_loop e (p # rest) uploaded failed st =
           process_loop e rest (uploaded + 1) failed
             (st\<lparr>log := log st @ [Processing p, Uploaded p, Failed_to_delete p,
                                   Local_copy_remains p]\<rparr>) \<and>
         (folder_exists e \<and> p \<in> set (glob_csv e) \<longrightarrow>
            summary (process_files e local) =
              Some (length (filter (upload_ok e) (glob_csv e)),
                    length (filter (\<lambda>p. \<not> upload_ok e p) (glob_csv e))) \<and>
            p \<in> set (filter (upload_ok e) (glob_csv e)) \<and>
            Failed_to_upload p \<notin> set (log (process_files e local)) \<and>
            (p \<in> local \<longrightarrow> p \<in> files (process_files e local)))"
proof -
  have step: "process_loop e (p # rest) uploaded failed st =
           process_loop e rest (uploaded + 1) failed
             (st\<lparr>log := log st @ [Processing p, Uploaded p, Failed_to_delete p,
                                   Local_copy_remains p]\<rparr>)"
    using assms by (simp add: upload_file_def delete_local_file_def logger_def)
  have "Failed_to_upload p \<notin> set (file_log e x)" for x
    using assms by (auto simp add: file_log_def)
  then have "Failed_to_upload p \<notin> set (log (process_files e local))"
    by (auto simp add: process_files_eq)
  moreover have "glob_csv e \<noteq> []" if "p \<in> set (glob_csv e)"
    using that by auto
  ultimately show ?thesis
    using step assms by (auto simp add: summary_process_files files_process_files)
qed

text \<open>The theorem of claim C9 at the sample run \<open>env1\<close>.\<close>

theorem delete_failure_counts_as_uploaded_witness:
  "upload_ok env1 ''a.csv'' \<and> \<not> unlink_ok env1 ''a.csv'' \<and> folder_exists env1 \<and>
   ''a.csv'' \<in> set (glob_csv env1) \<and> ''a.csv'' \<in> local0 \<and>
   summary (process_files env1 local0) = Some (1, 1) \<and>
   ''a.csv'' \<in> files (process_files env1 local0)"
  using delete_failure_counts_as_uploaded
      [where e = env1 and p = "''a.csv''" and rest = "[]" and uploaded = 0 and failed = 0
         and st = "\<lparr>files = {}, log = []\<rparr>" and local = local0]
  by (simp add: env1_def local0_def)

text \<open>
  Claim C10. In the log of every run each deletion comes right after the confirmed upload
  of the same file; the run adds no local file; a file the run removed is one of the CSV
  files, its upload succeeded and was logged; and a file whose upload fails stays.
\<close>

theorem delete_only_after_upload:
  "deletions_guarded (log (process_files e local)) \<and>
   files (process_files e local) \<subseteq> local \<and>
   (p \<in> local \<and> p \<notin> files (process_files e local) \<longrightarrow>
      p \<in> set (glob_csv e) \<and> upload_ok e p \<and> Uploaded p \<in> set (log (process_files e local))) \<and>
   (p \<in> local \<and> \<not> upload_ok e p \<longrightarrow> p \<in> files (process_files e local))"
proof -
  have "Uploaded p \<in> set (log (process_files e local))"
    if "folder_exists e" "p \<in> set (glob_csv e)" "upload_ok e p"
  proof -
    have "Uploaded p \<in> set (file_log e p)" using that by (simp add: file_log_def)
    with that show ?thesis by (auto simp add: process_files_eq)
  qed
  then show ?thesis
    using deletions_guarded_process_files [of e local]
    by (auto simp add: files_process_files split: if_splits)
qed

text \<open>The theorem of claim C10 at the sample run \<open>env0\<close>, with its whole log.\<close>

theorem delete_only_after_upload_witness:
  "deletions_guarded (log (process_files env0 local0)) \<and>
   ''a.csv'' \<in> local0 \<and> ''a.csv'' \<notin> files (process_files env0 local0) \<and> upload_ok env0 ''a.csv'' \<and>
   ''b.csv'' \<in> local0 \<and> \<not> upload_ok env0 ''b.csv'' \<and> ''b.csv'' \<in> files (process_files env0 local0) \<and>
   log (process_files env0 local0) =
     [Rule, Uploader_started, Rule, Found_CSV_files 2,
      Processing ''a.csv'', Uploaded ''a.csv'', Deleted_local_file ''a.csv'',
      Processing ''b.csv'', Failed_to_upload ''b.csv'',
      Rule, Processing_complete 1 1, Rule]"
  using delete_only_after_upload [of env0 local0 "''b.csv''"]
  by (simp add: env0_def local0_def process_files_eq file_log_def)

end
